theory Spec2Isabelle
  imports Complex_Main "HOL-Library.Word" "HOL-Library.Multiset"
begin

unbundle bit_operations_syntax

section \<open>Types of the hash table (Source/Common/CHashTable.h)\<close>

text \<open>
  \<open>TUInt8\<close> and \<open>TUInt32\<close> are the unsigned 8-bit and 32-bit integers (their typedefs are
  in Defines.h, which is not among the sources; the widths are those of the names); all
  arithmetic on them wraps. A key is handed to a hash function as a pointer to its bytes and a length;
  the model passes the bytes as a list and the length as the 32-bit word of the source.
\<close>

type_synonym TUInt8 = "8 word"
type_synonym TUInt32 = "32 word"

text \<open>
  Modelled from the spec: \<open>TFloat32\<close> (declared in Defines.h, which is not among the
  sources). The spec describes the load factor as a ratio and the growth test as
  \<open>NumEntries > Size * MaxLoadFactor\<close>; the model takes the ratio as a rational number
  and evaluates the product and the comparison exactly.
\<close>

type_synonym TFloat32 = rat

type_synonym THashFunction = "TUInt8 list \<Rightarrow> TUInt32 \<Rightarrow> TUInt32"

text \<open>What can stop a member function before it returns.\<close>

datatype fault =
    DivideByZero      \<comment> \<open>\<open>iIndex %= m_iSize\<close> with \<open>m_iSize = 0\<close>\<close>
  | IndexOutOfRange   \<comment> \<open>an access \<open>m_aBuckets[i]\<close> outside the allocated array\<close>
  | OutOfFuel         \<comment> \<open>the recursion budget of the model is used up (not a behaviour of the code)\<close>

record ('k, 'v) TKeyValuePair =
  key :: 'k
  val :: 'v

type_synonym ('k, 'v) TBucket = "('k, 'v) TKeyValuePair list"

record ('k, 'v) CHashTable =
  m_aBuckets :: "('k, 'v) TBucket list"
  m_iSize :: TUInt32
  m_iNumEntries :: TUInt32
  m_kpfHashFunction :: THashFunction
  m_kfMaxLoadFactor :: TFloat32

section \<open>Hashing functions (Source/Common/CHashTable.cpp)\<close>

function AddUpHash_loop :: "TUInt8 list \<Rightarrow> TUInt32 \<Rightarrow> TUInt32 \<Rightarrow> TUInt32 \<Rightarrow> TUInt32" where
  "AddUpHash_loop pKey iKeyLen iKeyIndex iHash =
     (if iKeyIndex < iKeyLen
      then AddUpHash_loop pKey iKeyLen (iKeyIndex + 1) (iHash + ucast (pKey ! unat iKeyIndex))
      else iHash)"
  by pat_completeness auto
termination
proof (relation "measure (\<lambda>(pKey, iKeyLen, iKeyIndex, iHash). unat iKeyLen - unat iKeyIndex)")
  show "wf (measure (\<lambda>(pKey :: TUInt8 list, iKeyLen :: TUInt32, iKeyIndex :: TUInt32,
                       iHash :: TUInt32). unat iKeyLen - unat iKeyIndex))"
    by simp
next
  fix pKey :: "TUInt8 list" and iKeyLen iKeyIndex iHash :: TUInt32
  assume lt: "iKeyIndex < iKeyLen"
  then have below: "unat iKeyIndex < unat iKeyLen"
    by (simp add: word_less_nat_alt)
  moreover have "unat iKeyLen < 2 ^ 32"
    using unsigned_less [of iKeyLen] by simp
  ultimately have "Suc (unat iKeyIndex) < 2 ^ 32"
    by linarith
  then have "unat (iKeyIndex + 1) = Suc (unat iKeyIndex)"
    by (simp add: unat_word_ariths)
  with below show "((pKey, iKeyLen, iKeyIndex + 1, iHash + ucast (pKey ! unat iKeyIndex)),
                    (pKey, iKeyLen, iKeyIndex, iHash))
                   \<in> measure (\<lambda>(pKey, iKeyLen, iKeyIndex, iHash). unat iKeyLen - unat iKeyIndex)"
    by simp
qed

declare AddUpHash_loop.simps [simp del]

definition AddUpHash :: THashFunction where
  "AddUpHash pKey iKeyLen = AddUpHash_loop pKey iKeyLen 0 0"

definition JOneAtATime_mix :: "TUInt32 \<Rightarrow> TUInt8 \<Rightarrow> TUInt32" where
  "JOneAtATime_mix iHash b =
     (let h1 = iHash + ucast b;
          h2 = h1 + push_bit 10 h1
      in h2 XOR drop_bit 6 h2)"

function JOneAtATimeHash_loop :: "TUInt8 list \<Rightarrow> TUInt32 \<Rightarrow> TUInt32 \<Rightarrow> TUInt32 \<Rightarrow> TUInt32" where
  "JOneAtATimeHash_loop pKey iKeyLen iKeyIndex iHash =
     (if iKeyIndex < iKeyLen
      then JOneAtATimeHash_loop pKey iKeyLen (iKeyIndex + 1)
             (JOneAtATime_mix iHash (pKey ! unat iKeyIndex))
      else iHash)"
  by pat_completeness auto
termination
proof (relation "measure (\<lambda>(pKey, iKeyLen, iKeyIndex, iHash). unat iKeyLen - unat iKeyIndex)")
  show "wf (measure (\<lambda>(pKey :: TUInt8 list, iKeyLen :: TUInt32, iKeyIndex :: TUInt32,
                       iHash :: TUInt32). unat iKeyLen - unat iKeyIndex))"
    by simp
next
  fix pKey :: "TUInt8 list" and iKeyLen iKeyIndex iHash :: TUInt32
  assume lt: "iKeyIndex < iKeyLen"
  then have below: "unat iKeyIndex < unat iKeyLen"
    by (simp add: word_less_nat_alt)
  moreover have "unat iKeyLen < 2 ^ 32"
    using unsigned_less [of iKeyLen] by simp
  ultimately have "Suc (unat iKeyIndex) < 2 ^ 32"
    by linarith
  then have "unat (iKeyIndex + 1) = Suc (unat iKeyIndex)"
    by (simp add: unat_word_ariths)
  with below show "((pKey, iKeyLen, iKeyIndex + 1, JOneAtATime_mix iHash (pKey ! unat iKeyIndex)),
                    (pKey, iKeyLen, iKeyIndex, iHash))
                   \<in> measure (\<lambda>(pKey, iKeyLen, iKeyIndex, iHash). unat iKeyLen - unat iKeyIndex)"
    by simp
qed

declare JOneAtATimeHash_loop.simps [simp del]

definition JOneAtATime_final :: "TUInt32 \<Rightarrow> TUInt32" where
  "JOneAtATime_final iHash =
     (let h1 = iHash + push_bit 3 iHash;
          h2 = h1 XOR drop_bit 11 h1
      in h2 + push_bit 15 h2)"

definition JOneAtATimeHash :: THashFunction where
  "JOneAtATimeHash pKey iKeyLen = JOneAtATime_final (JOneAtATimeHash_loop pKey iKeyLen 0 0)"

section \<open>The table and its member functions (Source/Common/CHashTable.h)\<close>

text \<open>
  The constructor: \<open>new TBucket[m_iSize]\<close> is an array of \<open>m_iSize\<close> empty lists. Allocation
  is assumed to succeed, here and in \<open>Resize\<close>.
\<close>

definition CHashTable_new :: "TUInt32 \<Rightarrow> THashFunction \<Rightarrow> TFloat32 \<Rightarrow> ('k, 'v) CHashTable" where
  "CHashTable_new iInitialSize pfHashFunction fMaxLoadFactor =
     \<lparr> m_aBuckets = replicate (unat iInitialSize) [],
       m_iSize = iInitialSize,
       m_iNumEntries = 0,
       m_kpfHashFunction = pfHashFunction,
       m_kfMaxLoadFactor = fMaxLoadFactor \<rparr>"

text \<open>
  \<open>FindBucket\<close> reinterprets the key as raw bytes. The parameter \<open>pKeyData\<close> is that view of
  the key type: the \<open>sizeof(TKeyType)\<close> bytes of a key. The remainder by \<open>m_iSize = 0\<close> is
  undefined in C++ and is a fault of the model.
\<close>

definition FindBucket :: "('k \<Rightarrow> TUInt8 list) \<Rightarrow> ('k, 'v) CHashTable \<Rightarrow> 'k \<Rightarrow> fault + TUInt32" where
  "FindBucket pKeyData t k =
     (let iIndex = m_kpfHashFunction t (pKeyData k) (word_of_nat (length (pKeyData k)))
      in if m_iSize t = 0 then Inl DivideByZero else Inr (iIndex mod m_iSize t))"

text \<open>
  The bytes of a 4-byte integer key as \<open>reinterpret_cast\<close> shows them on a little-endian
  machine (the code is built for x86).
\<close>

definition UInt32_bytes :: "TUInt32 \<Rightarrow> TUInt8 list" where
  "UInt32_bytes x = [ucast x, ucast (drop_bit 8 x), ucast (drop_bit 16 x), ucast (drop_bit 24 x)]"

text \<open>
  An iterator into a bucket is the position it points at; \<open>end()\<close> is the length of the
  list. The loop of \<open>FindKeyValuePair\<close> steps to the first pair with the given key.
\<close>

fun FindKeyValuePair_loop :: "'k \<Rightarrow> ('k, 'v) TBucket \<Rightarrow> nat" where
  "FindKeyValuePair_loop k [] = 0"
| "FindKeyValuePair_loop k (p # ps) = (if k = key p then 0 else Suc (FindKeyValuePair_loop k ps))"

text \<open>
  \<open>FindKeyValuePair\<close> takes the bucket index as \<open>const int\<close>: callers pass their \<open>TUInt32\<close>
  index, which is read as a signed 32-bit value. An index outside the array is a fault.
\<close>

definition FindKeyValuePair :: "('k, 'v) CHashTable \<Rightarrow> int \<Rightarrow> 'k \<Rightarrow> fault + nat" where
  "FindKeyValuePair t iBucket k =
     (if 0 \<le> iBucket \<and> nat iBucket < length (m_aBuckets t)
      then Inr (FindKeyValuePair_loop k (m_aBuckets t ! nat iBucket))
      else Inl IndexOutOfRange)"

text \<open>The access \<open>m_aBuckets[iBucket]\<close> with a \<open>TUInt32\<close> index.\<close>

definition Bucket_at :: "('k, 'v) CHashTable \<Rightarrow> TUInt32 \<Rightarrow> fault + ('k, 'v) TBucket" where
  "Bucket_at t iBucket =
     (if unat iBucket < length (m_aBuckets t)
      then Inr (m_aBuckets t ! unat iBucket)
      else Inl IndexOutOfRange)"

text \<open>
  \<open>LookUpKey\<close> returns the boolean result, the content of the caller's slot \<open>*pValue\<close> after
  the call, and the table after the call.
\<close>

definition LookUpKey ::
  "('k \<Rightarrow> TUInt8 list) \<Rightarrow> ('k, 'v) CHashTable \<Rightarrow> 'k \<Rightarrow> 'v \<Rightarrow> fault + (bool \<times> 'v \<times> ('k, 'v) CHashTable)" where
  "LookUpKey pKeyData t k pValue =
     (case FindBucket pKeyData t k of
        Inl e \<Rightarrow> Inl e
      | Inr iBucket \<Rightarrow>
          (case FindKeyValuePair t (sint iBucket) k of
             Inl e \<Rightarrow> Inl e
           | Inr itKeyValuePair \<Rightarrow>
               (case Bucket_at t iBucket of
                  Inl e \<Rightarrow> Inl e
                | Inr b \<Rightarrow>
                    if itKeyValuePair = length b then Inr (False, pValue, t)
                    else Inr (True, val (b ! itKeyValuePair), t))))"

text \<open>The growth test \<open>m_iNumEntries > m_iSize * m_kfMaxLoadFactor\<close>.\<close>

definition LoadExceeded :: "('k, 'v) CHashTable \<Rightarrow> bool" where
  "LoadExceeded t \<longleftrightarrow>
     of_nat (unat (m_iNumEntries t)) > of_nat (unat (m_iSize t)) * m_kfMaxLoadFactor t"

text \<open>The tail of \<open>SetKeyValue\<close>: \<open>push_back\<close> of the new pair and \<open>++m_iNumEntries\<close>.\<close>

definition PushBackPair ::
  "('k, 'v) CHashTable \<Rightarrow> TUInt32 \<Rightarrow> 'k \<Rightarrow> 'v \<Rightarrow> fault + ('k, 'v) CHashTable" where
  "PushBackPair t iBucket k v =
     (if unat iBucket < length (m_aBuckets t)
      then Inr (t\<lparr> m_aBuckets :=
                      (m_aBuckets t)[unat iBucket :=
                         m_aBuckets t ! unat iBucket @ [\<lparr> key = k, val = v \<rparr>]],
                    m_iNumEntries := m_iNumEntries t + 1 \<rparr>)
      else Inl IndexOutOfRange)"

text \<open>
  \<open>SetKeyValue\<close> calls \<open>Resize\<close>, and \<open>Resize\<close> calls \<open>SetKeyValue\<close> for every pair of the old
  buckets, which may resize again. The first numeric argument bounds the depth of nested
  \<open>Resize\<close> calls; when it is used up the result is \<open>Inl OutOfFuel\<close>.
  \<open>Resize_for\<close> is the loop over the old bucket indices, \<open>Resize_while\<close> the loop that
  empties one old bucket from the front. The old array is local to \<open>Resize\<close> and no
  other code touches it.
\<close>

fun SetKeyValue ::
    "('k \<Rightarrow> TUInt8 list) \<Rightarrow> nat \<Rightarrow> ('k, 'v) CHashTable \<Rightarrow> 'k \<Rightarrow> 'v \<Rightarrow> fault + ('k, 'v) CHashTable"
  and Resize ::
    "('k \<Rightarrow> TUInt8 list) \<Rightarrow> nat \<Rightarrow> ('k, 'v) CHashTable \<Rightarrow> TUInt32 \<Rightarrow> fault + ('k, 'v) CHashTable"
  and Resize_for ::
    "('k \<Rightarrow> TUInt8 list) \<Rightarrow> nat \<Rightarrow> ('k, 'v) CHashTable \<Rightarrow> ('k, 'v) TBucket list \<Rightarrow> nat list
       \<Rightarrow> fault + ('k, 'v) CHashTable"
  and Resize_while ::
    "('k \<Rightarrow> TUInt8 list) \<Rightarrow> nat \<Rightarrow> ('k, 'v) CHashTable \<Rightarrow> ('k, 'v) TBucket
       \<Rightarrow> fault + ('k, 'v) CHashTable"
where
  "SetKeyValue pKeyData fuel t k v =
     (case FindBucket pKeyData t k of
        Inl e \<Rightarrow> Inl e
      | Inr iBucket \<Rightarrow>
          (case FindKeyValuePair t (sint iBucket) k of
             Inl e \<Rightarrow> Inl e
           | Inr itKeyValuePair \<Rightarrow>
               (case Bucket_at t iBucket of
                  Inl e \<Rightarrow> Inl e
                | Inr b \<Rightarrow>
                    if itKeyValuePair \<noteq> length b
                    then Inr (t\<lparr> m_aBuckets :=
                                   (m_aBuckets t)[unat iBucket :=
                                      b[itKeyValuePair := (b ! itKeyValuePair)\<lparr> val := v \<rparr>]] \<rparr>)
                    else if LoadExceeded t
                    then (case fuel of
                            0 \<Rightarrow> Inl OutOfFuel
                          | Suc fuel' \<Rightarrow>
                              (case Resize pKeyData fuel' t (m_iSize t * 2) of
                                 Inl e \<Rightarrow> Inl e
                               | Inr t' \<Rightarrow>
                                   (case FindBucket pKeyData t' k of
                                      Inl e \<Rightarrow> Inl e
                                    | Inr iBucket' \<Rightarrow> PushBackPair t' iBucket' k v)))
                    else PushBackPair t iBucket k v)))"
| "Resize pKeyData fuel t iNewSize =
     (let iOldSize = m_iSize t;
          aOldBuckets = m_aBuckets t
      in Resize_for pKeyData fuel
           (t\<lparr> m_iSize := iNewSize,
                m_aBuckets := replicate (unat iNewSize) [],
                m_iNumEntries := 0 \<rparr>)
           aOldBuckets [0..<unat iOldSize])"
| "Resize_for pKeyData fuel t aOldBuckets [] = Inr t"
| "Resize_for pKeyData fuel t aOldBuckets (iBucket # rest) =
     (if iBucket < length aOldBuckets
      then (case Resize_while pKeyData fuel t (aOldBuckets ! iBucket) of
              Inl e \<Rightarrow> Inl e
            | Inr t' \<Rightarrow> Resize_for pKeyData fuel t' aOldBuckets rest)
      else Inl IndexOutOfRange)"
| "Resize_while pKeyData fuel t [] = Inr t"
| "Resize_while pKeyData fuel t (front # rest) =
     (case SetKeyValue pKeyData fuel t (key front) (val front) of
        Inl e \<Rightarrow> Inl e
      | Inr t' \<Rightarrow> Resize_while pKeyData fuel t' rest)"

declare SetKeyValue.simps [simp del] Resize.simps [simp del]

text \<open>
  The driver of the specification's scenarios: \<open>SetKeyValue\<close> for each key and value of a
  list in turn, stopping at the first fault.
\<close>

fun SetKeyValues ::
  "('k \<Rightarrow> TUInt8 list) \<Rightarrow> nat \<Rightarrow> ('k, 'v) CHashTable \<Rightarrow> ('k \<times> 'v) list
     \<Rightarrow> fault + ('k, 'v) CHashTable" where
  "SetKeyValues pKeyData fuel t [] = Inr t"
| "SetKeyValues pKeyData fuel t ((k, v) # kvs) =
     (case SetKeyValue pKeyData fuel t k v of
        Inl e \<Rightarrow> Inl e
      | Inr t' \<Rightarrow> SetKeyValues pKeyData fuel t' kvs)"

definition RemoveKey ::
  "('k \<Rightarrow> TUInt8 list) \<Rightarrow> ('k, 'v) CHashTable \<Rightarrow> 'k \<Rightarrow> fault + (bool \<times> ('k, 'v) CHashTable)" where
  "RemoveKey pKeyData t k =
     (case FindBucket pKeyData t k of
        Inl e \<Rightarrow> Inl e
      | Inr iBucket \<Rightarrow>
          (case FindKeyValuePair t (sint iBucket) k of
             Inl e \<Rightarrow> Inl e
           | Inr itKeyValuePair \<Rightarrow>
               (case Bucket_at t iBucket of
                  Inl e \<Rightarrow> Inl e
                | Inr b \<Rightarrow>
                    if itKeyValuePair = length b then Inr (False, t)
                    else Inr (True,
                              t\<lparr> m_aBuckets :=
                                   (m_aBuckets t)[unat iBucket :=
                                      take itKeyValuePair b @ drop (Suc itKeyValuePair) b],
                                 m_iNumEntries := m_iNumEntries t - 1 \<rparr>))))"

fun RemoveAllKeys_for :: "('k, 'v) CHashTable \<Rightarrow> nat list \<Rightarrow> fault + ('k, 'v) CHashTable" where
  "RemoveAllKeys_for t [] = Inr t"
| "RemoveAllKeys_for t (iBucket # rest) =
     (if iBucket < length (m_aBuckets t)
      then RemoveAllKeys_for (t\<lparr> m_aBuckets := (m_aBuckets t)[iBucket := []] \<rparr>) rest
      else Inl IndexOutOfRange)"

definition RemoveAllKeys :: "('k, 'v) CHashTable \<Rightarrow> fault + ('k, 'v) CHashTable" where
  "RemoveAllKeys t = RemoveAllKeys_for t [0..<unat (m_iSize t)]"

section \<open>Reference definitions, invariants and the abstraction to a finite map\<close>

text \<open>
  The reference definitions of the two hashes, in the words of the specification, on
  natural numbers: every addition and left shift is reduced modulo \<open>2^32\<close>.
\<close>

definition AddUpHash_ref :: "nat list \<Rightarrow> nat" where
  "AddUpHash_ref bs = sum_list bs mod 2 ^ 32"

definition OneAtATime_step :: "nat \<Rightarrow> nat \<Rightarrow> nat" where
  "OneAtATime_step acc b =
     (let a1 = (acc + b) mod 2 ^ 32;
          a2 = (a1 + a1 * 2 ^ 10) mod 2 ^ 32
      in a2 XOR (a2 div 2 ^ 6))"

definition OneAtATime_final :: "nat \<Rightarrow> nat" where
  "OneAtATime_final acc =
     (let a1 = (acc + acc * 2 ^ 3) mod 2 ^ 32;
          a2 = a1 XOR (a1 div 2 ^ 11)
      in (a2 + a2 * 2 ^ 15) mod 2 ^ 32)"

definition JOneAtATimeHash_ref :: "nat list \<Rightarrow> nat" where
  "JOneAtATimeHash_ref bs = OneAtATime_final (foldl OneAtATime_step 0 bs)"

definition bucket_alist :: "('k, 'v) TBucket \<Rightarrow> ('k \<times> 'v) list" where
  "bucket_alist b = map (\<lambda>p. (key p, val p)) b"

definition entries :: "('k, 'v) CHashTable \<Rightarrow> ('k, 'v) TKeyValuePair list" where
  "entries t = concat (m_aBuckets t)"

definition table_map :: "('k, 'v) CHashTable \<Rightarrow> 'k \<Rightarrow> 'v option" where
  "table_map t = map_of (bucket_alist (entries t))"

definition hashIndex :: "('k \<Rightarrow> TUInt8 list) \<Rightarrow> ('k, 'v) CHashTable \<Rightarrow> 'k \<Rightarrow> nat" where
  "hashIndex pKeyData t k =
     unat (m_kpfHashFunction t (pKeyData k) (word_of_nat (length (pKeyData k))) mod m_iSize t)"

definition consistent :: "('k, 'v) CHashTable \<Rightarrow> bool" where
  "consistent t \<longleftrightarrow> length (m_aBuckets t) = unat (m_iSize t)"

definition placed :: "('k \<Rightarrow> TUInt8 list) \<Rightarrow> ('k, 'v) CHashTable \<Rightarrow> bool" where
  "placed pKeyData t \<longleftrightarrow>
     (\<forall>i < length (m_aBuckets t). \<forall>p \<in> set (m_aBuckets t ! i). hashIndex pKeyData t (key p) = i)"

definition keys_distinct :: "('k, 'v) CHashTable \<Rightarrow> bool" where
  "keys_distinct t \<longleftrightarrow> (\<forall>i < length (m_aBuckets t). distinct (map key (m_aBuckets t ! i)))"

definition table_inv :: "('k \<Rightarrow> TUInt8 list) \<Rightarrow> ('k, 'v) CHashTable \<Rightarrow> bool" where
  "table_inv pKeyData t \<longleftrightarrow> consistent t \<and> placed pKeyData t \<and> keys_distinct t"

definition value_updated :: "('k, 'v) CHashTable \<Rightarrow> nat \<Rightarrow> nat \<Rightarrow> 'v \<Rightarrow> ('k, 'v) CHashTable" where
  "value_updated t j it v =
     t\<lparr> m_aBuckets := (m_aBuckets t)[j := (m_aBuckets t ! j)[it := (m_aBuckets t ! j ! it)\<lparr> val := v \<rparr>]] \<rparr>"

definition pair_pushed :: "('k, 'v) CHashTable \<Rightarrow> nat \<Rightarrow> 'k \<Rightarrow> 'v \<Rightarrow> ('k, 'v) CHashTable" where
  "pair_pushed t j k v =
     t\<lparr> m_aBuckets := (m_aBuckets t)[j := m_aBuckets t ! j @ [\<lparr> key = k, val = v \<rparr>]],
        m_iNumEntries := m_iNumEntries t + 1 \<rparr>"

definition pair_erased :: "('k, 'v) CHashTable \<Rightarrow> nat \<Rightarrow> nat \<Rightarrow> ('k, 'v) CHashTable" where
  "pair_erased t j it =
     t\<lparr> m_aBuckets := (m_aBuckets t)[j := take it (m_aBuckets t ! j) @ drop (Suc it) (m_aBuckets t ! j)],
        m_iNumEntries := m_iNumEntries t - 1 \<rparr>"

definition same_config :: "('k, 'v) CHashTable \<Rightarrow> ('k, 'v) CHashTable \<Rightarrow> bool" where
  "same_config t t' \<longleftrightarrow>
     m_kpfHashFunction t' = m_kpfHashFunction t \<and> m_kfMaxLoadFactor t' = m_kfMaxLoadFactor t"

definition grown_from :: "TUInt32 \<Rightarrow> ('k, 'v) CHashTable \<Rightarrow> bool" where
  "grown_from s t' \<longleftrightarrow> (\<exists>d. m_iSize t' = s * 2 ^ d)"

definition step_post ::
  "('k \<Rightarrow> TUInt8 list) \<Rightarrow> ('k, 'v) CHashTable \<Rightarrow> ('k, 'v) CHashTable \<Rightarrow> bool" where
  "step_post pKeyData t t' \<longleftrightarrow>
     table_inv pKeyData t' \<and> same_config t t' \<and> grown_from (m_iSize t) t'"






definition example_table :: "(TUInt32, TUInt32) CHashTable" where
  "example_table =
     \<lparr> m_aBuckets = [[], [\<lparr> key = 1, val = 10 \<rparr>, \<lparr> key = 5, val = 50 \<rparr>],
                    [\<lparr> key = 2, val = 20 \<rparr>], []],
       m_iSize = 4, m_iNumEntries = 3,
       m_kpfHashFunction = AddUpHash, m_kfMaxLoadFactor = 7 / 10 \<rparr>"

definition example_grown :: "(TUInt32, TUInt32) CHashTable" where
  "example_grown =
     \<lparr> m_aBuckets = [[], [\<lparr> key = 1, val = 10 \<rparr>], [\<lparr> key = 2, val = 20 \<rparr>], [], [],
                    [\<lparr> key = 5, val = 50 \<rparr>], [], [\<lparr> key = 7, val = 70 \<rparr>]],
       m_iSize = 8, m_iNumEntries = 4,
       m_kpfHashFunction = AddUpHash, m_kfMaxLoadFactor = 7 / 10 \<rparr>"

section \<open>Properties\<close>

lemma unat_word_succ:
  fixes i n :: TUInt32
  assumes "i < n" shows "unat (i + 1) = Suc (unat i)"
proof -
  have "unat i < unat n" using assms by (simp add: word_less_nat_alt)
  moreover have "unat n < 2 ^ 32" using unsigned_less [of n] by simp
  ultimately have "Suc (unat i) < 2 ^ 32" by linarith
  then show ?thesis by (simp add: unat_word_ariths)
qed

lemma AddUpHash_loop_sum:
  "unat iKeyLen \<le> length pKey \<Longrightarrow> iKeyIndex \<le> iKeyLen \<Longrightarrow>
   AddUpHash_loop pKey iKeyLen iKeyIndex iHash =
     iHash + word_of_nat (sum_list (map unat (drop (unat iKeyIndex) (take (unat iKeyLen) pKey))))"
proof (induction pKey iKeyLen iKeyIndex iHash rule: AddUpHash_loop.induct)
  case (1 pKey iKeyLen iKeyIndex iHash)
  show ?case
  proof (cases "iKeyIndex < iKeyLen")
    case True
    then have suc: "unat (iKeyIndex + 1) = Suc (unat iKeyIndex)" by (rule unat_word_succ)
    have lt: "unat iKeyIndex < unat iKeyLen" using True by (simp add: word_less_nat_alt)
    then have le: "iKeyIndex + 1 \<le> iKeyLen" using suc by (simp add: word_le_nat_alt)
    have idx: "unat iKeyIndex < length (take (unat iKeyLen) pKey)" using lt "1.prems"(1) by simp
    have split: "drop (unat iKeyIndex) (take (unat iKeyLen) pKey) =
       pKey ! unat iKeyIndex # drop (Suc (unat iKeyIndex)) (take (unat iKeyLen) pKey)"
      using idx lt by (metis Cons_nth_drop_Suc nth_take)
    show ?thesis
      using "1.IH" [OF True "1.prems"(1) le] True
      by (subst AddUpHash_loop.simps) (simp add: suc split)
  next
    case False
    then have "iKeyIndex = iKeyLen" using "1.prems"(2) by simp
    then show ?thesis by (subst AddUpHash_loop.simps) simp
  qed
qed

lemma AddUpHash_correct:
  assumes "unat iKeyLen = length pKey"
  shows "unat (AddUpHash pKey iKeyLen) = AddUpHash_ref (map unat pKey)"
proof -
  have "AddUpHash pKey iKeyLen = word_of_nat (sum_list (map unat pKey))"
    using assms by (simp add: AddUpHash_def AddUpHash_loop_sum)
  then show ?thesis by (simp add: AddUpHash_ref_def unat_of_nat)
qed

lemma unat_add32: "unat (a + b :: TUInt32) = (unat a + unat b) mod 2 ^ 32"
  by (simp add: unat_word_ariths)

lemma unat_shl32: "unat (push_bit n (a :: TUInt32)) = (unat a * 2 ^ n) mod 2 ^ 32"
  unfolding unsigned_push_bit_eq by (simp add: push_bit_eq_mult take_bit_eq_mod)

lemma unat_shr32: "unat (drop_bit n (a :: TUInt32)) = unat a div 2 ^ n"
  unfolding unat_drop_bit_eq by (rule drop_bit_eq_div)

lemma unat_xor32: "unat (a XOR b :: TUInt32) = unat a XOR unat b"
  by (simp add: unsigned_xor_eq)

lemma unat_byte32: "unat (ucast (b :: TUInt8) :: TUInt32) = unat b"
proof -
  have "unat b < 2 ^ 8" using unsigned_less [of b] by simp
  then have "unat b < 2 ^ 32" by simp
  then have "take_bit 32 (unat b) = unat b" by (rule take_bit_nat_eq_self)
  then show ?thesis by (simp add: unsigned_ucast_eq)
qed

lemma mix_ref: "unat (JOneAtATime_mix h b) = OneAtATime_step (unat h) (unat b)"
  unfolding JOneAtATime_mix_def OneAtATime_step_def Let_def
  by (simp only: unat_add32 unat_shl32 unat_shr32 unat_xor32 unat_byte32 mod_add_right_eq mod_mod_trivial)

lemma JOneAtATimeHash_loop_fold:
  "unat iKeyLen \<le> length pKey \<Longrightarrow> iKeyIndex \<le> iKeyLen \<Longrightarrow>
   unat (JOneAtATimeHash_loop pKey iKeyLen iKeyIndex iHash) =
     foldl OneAtATime_step (unat iHash)
       (map unat (drop (unat iKeyIndex) (take (unat iKeyLen) pKey)))"
proof (induction pKey iKeyLen iKeyIndex iHash rule: JOneAtATimeHash_loop.induct)
  case (1 pKey iKeyLen iKeyIndex iHash)
  show ?case
  proof (cases "iKeyIndex < iKeyLen")
    case True
    then have suc: "unat (iKeyIndex + 1) = Suc (unat iKeyIndex)" by (rule unat_word_succ)
    have lt: "unat iKeyIndex < unat iKeyLen" using True by (simp add: word_less_nat_alt)
    then have le: "iKeyIndex + 1 \<le> iKeyLen" using suc by (simp add: word_le_nat_alt)
    have idx: "unat iKeyIndex < length (take (unat iKeyLen) pKey)" using lt "1.prems"(1) by simp
    have split: "drop (unat iKeyIndex) (take (unat iKeyLen) pKey) =
       pKey ! unat iKeyIndex # drop (Suc (unat iKeyIndex)) (take (unat iKeyLen) pKey)"
      using idx lt by (metis Cons_nth_drop_Suc nth_take)
    show ?thesis
      using "1.IH" [OF True "1.prems"(1) le] True
      by (subst JOneAtATimeHash_loop.simps) (simp add: suc split mix_ref)
  next
    case False
    then have "iKeyIndex = iKeyLen" using "1.prems"(2) by simp
    then show ?thesis by (subst JOneAtATimeHash_loop.simps) simp
  qed
qed

lemma final_ref: "unat (JOneAtATime_final h0) = OneAtATime_final (unat h0)"
  unfolding OneAtATime_final_def JOneAtATime_final_def Let_def
  by (simp only: unat_add32 unat_shl32 unat_shr32 unat_xor32 mod_add_right_eq mod_mod_trivial)

text \<open>
  Claim C8. Over unsigned 32-bit arithmetic, \<open>AddUpHash\<close> returns the sum of the key bytes
  modulo \<open>2^32\<close>, and \<open>JOneAtATimeHash\<close> is the reference one-at-a-time hash: per byte, add
  the byte, then \<open>acc += acc << 10\<close> and \<open>acc ^= acc >> 6\<close>; after the loop \<open>acc += acc << 3\<close>,
  \<open>acc ^= acc >> 11\<close>, \<open>acc += acc << 15\<close>, every step modulo \<open>2^32\<close>. The reference
  definitions work on natural numbers with the reductions written out; the length passed
  is the number of bytes of the key.
\<close>

theorem hashes_refine:
  assumes "unat iKeyLen = length pKey"
  shows "unat (AddUpHash pKey iKeyLen) = AddUpHash_ref (map unat pKey)
       \<and> unat (JOneAtATimeHash pKey iKeyLen) = JOneAtATimeHash_ref (map unat pKey)"
proof
  show "unat (AddUpHash pKey iKeyLen) = AddUpHash_ref (map unat pKey)"
    using assms by (rule AddUpHash_correct)
  have "unat (JOneAtATimeHash_loop pKey iKeyLen 0 0) = foldl OneAtATime_step 0 (map unat pKey)"
    using assms JOneAtATimeHash_loop_fold [of iKeyLen pKey 0 0] by simp
  then show "unat (JOneAtATimeHash pKey iKeyLen) = JOneAtATimeHash_ref (map unat pKey)"
    by (simp add: JOneAtATimeHash_def JOneAtATimeHash_ref_def final_ref)
qed

theorem hashes_refine_witness:
  "unat (4 :: TUInt32) = length [1, 0, 0, 0 :: TUInt8]
   \<and> unat (AddUpHash [1, 0, 0, 0] 4) = AddUpHash_ref (map unat [1, 0, 0, 0 :: TUInt8])
   \<and> unat (JOneAtATimeHash [1, 0, 0, 0] 4) = JOneAtATimeHash_ref (map unat [1, 0, 0, 0 :: TUInt8])"
  using hashes_refine [of 4 "[1, 0, 0, 0]"] by simp

lemma JOneAtATimeHash_test_vector: "JOneAtATimeHash [97] 1 = 0xca2e9442"
  by (simp add: JOneAtATimeHash_def JOneAtATimeHash_loop.simps JOneAtATime_mix_def JOneAtATime_final_def Let_def)

subsection \<open>The scan of one bucket\<close>

lemma loop_le: "FindKeyValuePair_loop k b \<le> length b"
  by (induction b) auto

lemma loop_end_iff: "FindKeyValuePair_loop k b = length b \<longleftrightarrow> k \<notin> key ` set b"
proof (induction b)
  case Nil
  show ?case by simp
next
  case (Cons p ps)
  have "FindKeyValuePair_loop k ps \<le> length ps" by (rule loop_le)
  with Cons show ?case by auto
qed

lemma loop_key: "FindKeyValuePair_loop k b \<noteq> length b \<Longrightarrow> key (b ! FindKeyValuePair_loop k b) = k"
  by (induction b) (auto split: if_splits)


lemma bucket_alist_keys: "fst ` set (bucket_alist b) = key ` set b"
  by (force simp: bucket_alist_def)

lemma map_fst_bucket_alist: "map fst (bucket_alist b) = map key b"
  by (simp add: bucket_alist_def)

subsection \<open>Lists of buckets whose elements carry the index of their bucket\<close>

lemma tagged_concat_notin:
  assumes "\<forall>i < length bs. \<forall>x \<in> set (bs ! i). g (f x) = off + i"
    and "g k < off \<or> off + length bs \<le> g k"
  shows "k \<notin> f ` set (concat bs)"
proof
  assume "k \<in> f ` set (concat bs)"
  then obtain x b where "x \<in> set b" "b \<in> set bs" "k = f x" by auto
  then obtain i where "i < length bs" "bs ! i = b" by (auto simp: in_set_conv_nth)
  with assms(1) \<open>x \<in> set b\<close> \<open>k = f x\<close> have "g k = off + i" by auto
  with assms(2) \<open>i < length bs\<close> show False by auto
qed

lemma tagged_tail:
  assumes "\<forall>i < length (b # bs). \<forall>x \<in> set ((b # bs) ! i). g (f x) = off + i"
  shows "\<forall>i < length bs. \<forall>x \<in> set (bs ! i). g (f x) = Suc off + i"
proof (intro allI impI ballI)
  fix i x assume "i < length bs" "x \<in> set (bs ! i)"
  then have "Suc i < length (b # bs)" "x \<in> set ((b # bs) ! Suc i)" by auto
  with assms have "g (f x) = off + Suc i" by blast
  then show "g (f x) = Suc off + i" by simp
qed

lemma tagged_head:
  assumes "\<forall>i < length (b # bs). \<forall>x \<in> set ((b # bs) ! i). g (f x) = off + i"
  shows "\<forall>x \<in> set b. g (f x) = off"
  using assms by force

lemma tagged_concat_distinct:
  assumes "\<forall>i < length bs. distinct (map f (bs ! i))"
    and "\<forall>i < length bs. \<forall>x \<in> set (bs ! i). g (f x) = off + i"
  shows "distinct (map f (concat bs))"
  using assms
proof (induction bs arbitrary: off)
  case Nil
  show ?case by simp
next
  case (Cons b bs)
  have tl: "\<forall>i < length bs. \<forall>x \<in> set (bs ! i). g (f x) = Suc off + i"
    using Cons.prems(2) by (rule tagged_tail)
  have hd: "\<forall>x \<in> set b. g (f x) = off"
    using Cons.prems(2) by (rule tagged_head)
  have d0: "distinct (map f b)"
    using Cons.prems(1) by force
  have dtl: "\<forall>i < length bs. distinct (map f (bs ! i))"
    using Cons.prems(1) by force
  have rest: "distinct (map f (concat bs))"
    using dtl tl by (rule Cons.IH)
  have "f ` set b \<inter> f ` set (concat bs) = {}"
  proof (rule ccontr)
    assume "f ` set b \<inter> f ` set (concat bs) \<noteq> {}"
    then obtain k where kb: "k \<in> f ` set b" and kc: "k \<in> f ` set (concat bs)" by auto
    from kb hd have "g k = off" by auto
    then have "g k < Suc off \<or> Suc off + length bs \<le> g k" by simp
    with tl have "k \<notin> f ` set (concat bs)" by (rule tagged_concat_notin)
    with kc show False by simp
  qed
  with d0 rest show ?case by simp
qed

lemma tagged_concat_map_of:
  assumes "\<forall>i < length bs. \<forall>x \<in> set (bs ! i). g (fst x) = off + i"
    and "off \<le> g k" and "g k < off + length bs"
  shows "map_of (concat bs) k = map_of (bs ! (g k - off)) k"
  using assms
proof (induction bs arbitrary: off)
  case Nil
  then show ?case by simp
next
  case (Cons b bs)
  have tl: "\<forall>i < length bs. \<forall>x \<in> set (bs ! i). g (fst x) = Suc off + i"
    using Cons.prems(1) by (rule tagged_tail)
  have hd: "\<forall>x \<in> set b. g (fst x) = off"
    using Cons.prems(1) by (rule tagged_head)
  show ?case
  proof (cases "g k = off")
    case True
    then have "g k < Suc off \<or> Suc off + length bs \<le> g k" by simp
    with tl have "k \<notin> fst ` set (concat bs)" by (rule tagged_concat_notin)
    then have "map_of (concat bs) k = None" by (simp add: map_of_eq_None_iff)
    then show ?thesis using True by (simp add: map_add_def split: option.splits)
  next
    case False
    with Cons.prems(2) have gt: "Suc off \<le> g k" by simp
    have "k \<notin> fst ` set b" using hd False by auto
    then have none: "map_of b k = None" by (simp add: map_of_eq_None_iff)
    have "map_of (concat bs) k = map_of (bs ! (g k - Suc off)) k"
      using tl gt Cons.prems(3) by (intro Cons.IH) auto
    moreover have "g k - off = Suc (g k - Suc off)"
      using gt by arith
    then have "(b # bs) ! (g k - off) = bs ! (g k - Suc off)"
      by simp
    ultimately show ?thesis using none by (simp add: map_add_def)
  qed
qed

subsection \<open>Indices\<close>

lemma hashIndex_less:
  assumes "consistent t" and "m_iSize t \<noteq> 0"
  shows "hashIndex pKeyData t k < length (m_aBuckets t)"
proof -
  have "0 < m_iSize t" using assms(2) by (simp add: word_neq_0_conv)
  then have "m_kpfHashFunction t (pKeyData k) (word_of_nat (length (pKeyData k))) mod m_iSize t
               < m_iSize t"
    by (rule word_mod_less_divisor)
  then show ?thesis
    using assms(1) by (simp add: hashIndex_def consistent_def word_less_nat_alt)
qed

lemma nat_sint_nonneg:
  fixes w :: TUInt32
  assumes "0 \<le> sint w"
  shows "nat (sint w) = unat w"
proof -
  have "sint w < 2 ^ (LENGTH(32) - 1)" by (rule sint_lt)
  then have "sint w < 2 ^ 32" by simp
  with assms have "take_bit 32 (sint w) = sint w" by (simp add: take_bit_int_eq_self)
  then have "uint w = sint w" using uint_sint [of w] by simp
  then show ?thesis by (metis nat_uint_eq)
qed

lemma sint_small:
  fixes w :: TUInt32
  assumes "unat w < 2 ^ 31"
  shows "0 \<le> sint w"
proof -
  have "int (unat w) < 2 ^ 31" using assms by (metis of_nat_less_iff of_nat_numeral of_nat_power)
  then have "uint w < 2 ^ 31" by simp
  moreover have "- (2 ^ 31) \<le> uint w"
  proof -
    have "- (2 ^ 31) \<le> (0 :: int)" by simp
    also have "0 \<le> uint w" by simp
    finally show ?thesis .
  qed
  ultimately have "signed_take_bit 31 (uint w) = uint w"
    by (intro signed_take_bit_int_eq_self)
  then have "sint w = uint w" using sint_uint [of w] by simp
  then show ?thesis by simp
qed

subsection \<open>One bucket: update in place, append, erase\<close>

lemma bucket_update_keys:
  "it < length b \<Longrightarrow> map key (b[it := (b ! it)\<lparr> val := v \<rparr>]) = map key b"
  by (simp add: map_update list_update_same_conv)

lemma bucket_update_map_of:
  "FindKeyValuePair_loop k b \<noteq> length b \<Longrightarrow>
   map_of (bucket_alist (b[FindKeyValuePair_loop k b := (b ! FindKeyValuePair_loop k b)\<lparr> val := v \<rparr>]))
     = (map_of (bucket_alist b))(k \<mapsto> v)"
  by (induction b) (auto simp: bucket_alist_def)

lemma bucket_append_map_of:
  "k \<notin> key ` set b \<Longrightarrow>
   map_of (bucket_alist (b @ [\<lparr> key = k, val = v \<rparr>])) = (map_of (bucket_alist b))(k \<mapsto> v)"
  by (induction b) (auto simp: bucket_alist_def)

lemma bucket_erase_map_of:
  "distinct (map key b) \<Longrightarrow> FindKeyValuePair_loop k b \<noteq> length b \<Longrightarrow>
   map_of (bucket_alist (take (FindKeyValuePair_loop k b) b @ drop (Suc (FindKeyValuePair_loop k b)) b))
     = (map_of (bucket_alist b))(k := None)"
proof (induction b)
  case Nil
  then show ?case by simp
next
  case (Cons p ps)
  show ?case
  proof (cases "k = key p")
    case True
    then have "k \<notin> fst ` set (bucket_alist ps)"
      using Cons.prems(1) by (simp add: bucket_alist_keys)
    then have "map_of (bucket_alist ps) k = None"
      by (simp add: map_of_eq_None_iff)
    then show ?thesis using True by (auto simp: bucket_alist_def)
  next
    case False
    then show ?thesis using Cons by (auto simp: bucket_alist_def)
  qed
qed

subsection \<open>The table as a finite map\<close>

lemma inv_keys_distinct:
  assumes "table_inv pKeyData t"
  shows "distinct (map key (entries t))"
  unfolding entries_def
proof (rule tagged_concat_distinct [where g = "hashIndex pKeyData t" and off = 0])
  show "\<forall>i<length (m_aBuckets t). distinct (map key (m_aBuckets t ! i))"
    using assms by (simp add: table_inv_def keys_distinct_def)
  show "\<forall>i<length (m_aBuckets t). \<forall>x\<in>set (m_aBuckets t ! i). hashIndex pKeyData t (key x) = 0 + i"
    using assms by (simp add: table_inv_def placed_def)
qed

lemma table_map_bucket:
  assumes "placed pKeyData t" and "hashIndex pKeyData t k < length (m_aBuckets t)"
  shows "table_map t k = map_of (bucket_alist (m_aBuckets t ! hashIndex pKeyData t k)) k"
proof -
  let ?bs = "map bucket_alist (m_aBuckets t)"
  have tags: "\<forall>i<length ?bs. \<forall>x\<in>set (?bs ! i). hashIndex pKeyData t (fst x) = 0 + i"
    using assms(1) by (auto simp: placed_def bucket_alist_def)
  have "map_of (concat ?bs) k = map_of (?bs ! (hashIndex pKeyData t k - 0)) k"
    using tags by (rule tagged_concat_map_of) (use assms(2) in auto)
  moreover have "bucket_alist (entries t) = concat ?bs"
    by (simp add: bucket_alist_def [abs_def] entries_def map_concat)
  ultimately show ?thesis
    using assms(2) by (simp add: table_map_def)
qed

text \<open>Replacing the bucket of \<open>k\<close> by a list that acts on the map like an update at \<open>k\<close>.\<close>

lemma replace_bucket_inv:
  assumes inv: "table_inv pKeyData t"
    and j: "j < length (m_aBuckets t)"
    and keys: "\<forall>p \<in> set b'. hashIndex pKeyData t (key p) = j"
    and dist: "distinct (map key b')"
    and t': "m_aBuckets t' = (m_aBuckets t)[j := b']" "m_iSize t' = m_iSize t"
            "m_kpfHashFunction t' = m_kpfHashFunction t"
  shows "table_inv pKeyData t'"
proof -
  have hi: "hashIndex pKeyData t' = hashIndex pKeyData t"
    by (rule ext) (simp add: hashIndex_def t')
  have "consistent t'" using inv by (simp add: table_inv_def consistent_def t')
  moreover have "placed pKeyData t'"
    unfolding placed_def hi
  proof (intro allI impI ballI)
    fix i p assume i: "i < length (m_aBuckets t')" and p: "p \<in> set (m_aBuckets t' ! i)"
    show "hashIndex pKeyData t (key p) = i"
    proof (cases "i = j")
      case True
      with p j keys show ?thesis by (simp add: t')
    next
      case False
      with p i inv show ?thesis by (simp add: t' table_inv_def placed_def)
    qed
  qed
  moreover have "keys_distinct t'"
    unfolding keys_distinct_def
  proof (intro allI impI)
    fix i assume i: "i < length (m_aBuckets t')"
    show "distinct (map key (m_aBuckets t' ! i))"
    proof (cases "i = j")
      case True
      with j dist show ?thesis by (simp add: t')
    next
      case False
      with i inv show ?thesis by (simp add: t' table_inv_def keys_distinct_def)
    qed
  qed
  ultimately show ?thesis by (simp add: table_inv_def)
qed

lemma replace_bucket_map:
  assumes inv: "table_inv pKeyData t"
    and size: "m_iSize t \<noteq> 0"
    and j: "j = hashIndex pKeyData t k"
    and keys: "\<forall>p \<in> set b'. hashIndex pKeyData t (key p) = j"
    and dist: "distinct (map key b')"
    and upd: "map_of (bucket_alist b') = (map_of (bucket_alist (m_aBuckets t ! j)))(k := r)"
    and t': "m_aBuckets t' = (m_aBuckets t)[j := b']" "m_iSize t' = m_iSize t"
            "m_kpfHashFunction t' = m_kpfHashFunction t"
  shows "table_map t' = (table_map t)(k := r)"
proof (rule ext)
  fix k'
  have cons: "consistent t" and pl: "placed pKeyData t"
    using inv by (simp_all add: table_inv_def)
  have jlt: "j < length (m_aBuckets t)"
    unfolding j using cons size by (rule hashIndex_less)
  have inv': "table_inv pKeyData t'"
    using inv jlt keys dist t' by (rule replace_bucket_inv)
  then have cons': "consistent t'" and pl': "placed pKeyData t'"
    by (simp_all add: table_inv_def)
  have hi: "hashIndex pKeyData t' = hashIndex pKeyData t"
    by (rule ext) (simp add: hashIndex_def t')
  have lt: "hashIndex pKeyData t k' < length (m_aBuckets t)"
    using cons size by (rule hashIndex_less)
  have old: "table_map t k' = map_of (bucket_alist (m_aBuckets t ! hashIndex pKeyData t k')) k'"
    using pl lt by (rule table_map_bucket)
  have "table_map t' k' = map_of (bucket_alist (m_aBuckets t' ! hashIndex pKeyData t' k')) k'"
    using pl' by (rule table_map_bucket) (simp add: hi t' lt)
  then have new: "table_map t' k' = map_of (bucket_alist ((m_aBuckets t)[j := b'] ! hashIndex pKeyData t k')) k'"
    by (simp add: hi t')
  show "table_map t' k' = ((table_map t)(k := r)) k'"
  proof (cases "hashIndex pKeyData t k' = j")
    case True
    then show ?thesis using new old jlt upd by simp
  next
    case False
    then have "k' \<noteq> k" using j by auto
    then show ?thesis using new old False by simp
  qed
qed

lemma distinct_take_drop_Suc: "distinct xs \<Longrightarrow> distinct (take i xs @ drop (Suc i) xs)"
proof (induction xs arbitrary: i)
  case Nil
  show ?case by simp
next
  case (Cons x xs)
  show ?case
  proof (cases i)
    case 0
    with Cons.prems show ?thesis by simp
  next
    case (Suc i')
    have "distinct (take i' xs @ drop (Suc i') xs)"
      using Cons.prems by (intro Cons.IH) simp
    moreover have "x \<notin> set (take i' xs)" "x \<notin> set (drop (Suc i') xs)"
      using Cons.prems by (auto dest: in_set_takeD in_set_dropD)
    ultimately show ?thesis using Suc by simp
  qed
qed

lemma placed_bucket:
  "table_inv pKeyData t \<Longrightarrow> j < length (m_aBuckets t) \<Longrightarrow>
   \<forall>p \<in> set (m_aBuckets t ! j). hashIndex pKeyData t (key p) = j"
  by (simp add: table_inv_def placed_def)

lemma distinct_bucket:
  "table_inv pKeyData t \<Longrightarrow> j < length (m_aBuckets t) \<Longrightarrow> distinct (map key (m_aBuckets t ! j))"
  by (simp add: table_inv_def keys_distinct_def)

lemma value_updated_ok:
  assumes inv: "table_inv pKeyData t" and size: "m_iSize t \<noteq> 0"
    and j: "j = hashIndex pKeyData t k"
    and it: "it = FindKeyValuePair_loop k (m_aBuckets t ! j)" "it \<noteq> length (m_aBuckets t ! j)"
  shows "table_inv pKeyData (value_updated t j it v)"
    and "table_map (value_updated t j it v) = (table_map t)(k \<mapsto> v)"
proof -
  let ?b = "m_aBuckets t ! j"
  let ?b' = "?b[it := (?b ! it)\<lparr> val := v \<rparr>]"
  have jlt: "j < length (m_aBuckets t)"
    unfolding j using inv size by (simp add: table_inv_def hashIndex_less)
  have itlt: "it < length ?b"
    using it loop_le [of k ?b] by simp
  have keyit: "key (?b ! it) = k"
    using it loop_key [of k ?b] by simp
  have keys_eq: "map key ?b' = map key ?b"
    using itlt by (rule bucket_update_keys)
  have old: "\<forall>p \<in> set ?b. hashIndex pKeyData t (key p) = j"
    using inv jlt by (rule placed_bucket)
  have keys: "\<forall>p \<in> set ?b'. hashIndex pKeyData t (key p) = j"
  proof
    fix p assume "p \<in> set ?b'"
    then have "key p \<in> set (map key ?b')" by simp
    then have "key p \<in> set (map key ?b)" by (simp only: keys_eq)
    then show "hashIndex pKeyData t (key p) = j" using old by auto
  qed
  have dist: "distinct (map key ?b')"
    using distinct_bucket [OF inv jlt] by (simp only: keys_eq)
  have upd: "map_of (bucket_alist ?b') = (map_of (bucket_alist ?b))(k := Some v)"
    using it bucket_update_map_of [of k ?b v] by simp
  show "table_inv pKeyData (value_updated t j it v)"
    using inv jlt keys dist by (rule replace_bucket_inv) (simp_all add: value_updated_def)
  show "table_map (value_updated t j it v) = (table_map t)(k \<mapsto> v)"
    using inv size j keys dist upd by (rule replace_bucket_map) (simp_all add: value_updated_def)
qed

lemma pair_pushed_ok:
  assumes inv: "table_inv pKeyData t" and size: "m_iSize t \<noteq> 0"
    and j: "j = hashIndex pKeyData t k"
    and absent: "k \<notin> key ` set (m_aBuckets t ! j)"
  shows "table_inv pKeyData (pair_pushed t j k v)"
    and "table_map (pair_pushed t j k v) = (table_map t)(k \<mapsto> v)"
proof -
  let ?b = "m_aBuckets t ! j"
  let ?b' = "?b @ [\<lparr> key = k, val = v \<rparr>]"
  have jlt: "j < length (m_aBuckets t)"
    unfolding j using inv size by (simp add: table_inv_def hashIndex_less)
  have old: "\<forall>p \<in> set ?b. hashIndex pKeyData t (key p) = j"
    using inv jlt by (rule placed_bucket)
  have keys: "\<forall>p \<in> set ?b'. hashIndex pKeyData t (key p) = j"
    using old j by auto
  have dist: "distinct (map key ?b')"
    using distinct_bucket [OF inv jlt] absent by simp
  have upd: "map_of (bucket_alist ?b') = (map_of (bucket_alist ?b))(k := Some v)"
    using absent by (rule bucket_append_map_of)
  show "table_inv pKeyData (pair_pushed t j k v)"
    using inv jlt keys dist by (rule replace_bucket_inv) (simp_all add: pair_pushed_def)
  show "table_map (pair_pushed t j k v) = (table_map t)(k \<mapsto> v)"
    using inv size j keys dist upd by (rule replace_bucket_map) (simp_all add: pair_pushed_def)
qed

lemma pair_erased_ok:
  assumes inv: "table_inv pKeyData t" and size: "m_iSize t \<noteq> 0"
    and j: "j = hashIndex pKeyData t k"
    and it: "it = FindKeyValuePair_loop k (m_aBuckets t ! j)" "it \<noteq> length (m_aBuckets t ! j)"
  shows "table_inv pKeyData (pair_erased t j it)"
    and "table_map (pair_erased t j it) = (table_map t)(k := None)"
proof -
  let ?b = "m_aBuckets t ! j"
  let ?b' = "take it ?b @ drop (Suc it) ?b"
  have jlt: "j < length (m_aBuckets t)"
    unfolding j using inv size by (simp add: table_inv_def hashIndex_less)
  have old: "\<forall>p \<in> set ?b. hashIndex pKeyData t (key p) = j"
    using inv jlt by (rule placed_bucket)
  have sub: "set ?b' \<subseteq> set ?b"
    using set_take_subset [of it ?b] set_drop_subset [of "Suc it" ?b] by auto
  have keys: "\<forall>p \<in> set ?b'. hashIndex pKeyData t (key p) = j"
    using old sub by blast
  have d: "distinct (map key ?b)"
    using inv jlt by (rule distinct_bucket)
  have "map key ?b' = take it (map key ?b) @ drop (Suc it) (map key ?b)"
    by (simp add: take_map drop_map)
  moreover have "distinct (take it (map key ?b) @ drop (Suc it) (map key ?b))"
    using d by (rule distinct_take_drop_Suc)
  ultimately have dist: "distinct (map key ?b')" by simp
  have upd: "map_of (bucket_alist ?b') = (map_of (bucket_alist ?b))(k := None)"
    using d it by (simp add: bucket_erase_map_of)
  show "table_inv pKeyData (pair_erased t j it)"
    using inv jlt keys dist by (rule replace_bucket_inv) (simp_all add: pair_erased_def)
  show "table_map (pair_erased t j it) = (table_map t)(k := None)"
    using inv size j keys dist upd by (rule replace_bucket_map) (simp_all add: pair_erased_def)
qed

lemma same_config_refl: "same_config t t"
  by (simp add: same_config_def)

lemma same_config_trans: "same_config t t1 \<Longrightarrow> same_config t1 t2 \<Longrightarrow> same_config t t2"
  by (simp add: same_config_def)

lemma grown_from_refl: "grown_from (m_iSize t) t"
  unfolding grown_from_def by (rule exI [of _ 0]) simp

lemma grown_from_trans:
  assumes "grown_from s t1" and "grown_from (m_iSize t1) t2"
  shows "grown_from s t2"
proof -
  from assms obtain d e where "m_iSize t1 = s * 2 ^ d" "m_iSize t2 = m_iSize t1 * 2 ^ e"
    by (auto simp: grown_from_def)
  then have "m_iSize t2 = s * 2 ^ (d + e)" by (simp add: power_add mult.assoc)
  then show ?thesis unfolding grown_from_def by blast
qed

lemma grown_from_double:
  assumes "grown_from (s * 2) t1"
  shows "grown_from s t1"
proof -
  from assms obtain d where "m_iSize t1 = s * 2 * 2 ^ d" by (auto simp: grown_from_def)
  then have "m_iSize t1 = s * 2 ^ Suc d" by (simp add: mult.assoc)
  then show ?thesis unfolding grown_from_def by blast
qed

subsection \<open>What a successful call of the small functions tells\<close>

lemma FindBucket_InrD:
  "FindBucket pKeyData t k = Inr i \<Longrightarrow> m_iSize t \<noteq> 0 \<and> unat i = hashIndex pKeyData t k"
  by (auto simp: FindBucket_def hashIndex_def Let_def split: if_splits)

lemma FindKeyValuePair_InrD:
  assumes "FindKeyValuePair t (sint (i :: TUInt32)) k = Inr it"
  shows "unat i < length (m_aBuckets t) \<and> it = FindKeyValuePair_loop k (m_aBuckets t ! unat i)"
proof -
  from assms have nn: "0 \<le> sint i" and lt: "nat (sint i) < length (m_aBuckets t)"
    and it: "it = FindKeyValuePair_loop k (m_aBuckets t ! nat (sint i))"
    by (auto simp: FindKeyValuePair_def split: if_splits)
  from nn have "nat (sint i) = unat i" by (rule nat_sint_nonneg)
  with lt it show ?thesis by simp
qed

lemma Bucket_at_InrD:
  "Bucket_at t i = Inr b \<Longrightarrow> unat i < length (m_aBuckets t) \<and> b = m_aBuckets t ! unat i"
  by (auto simp: Bucket_at_def split: if_splits)

lemma PushBackPair_InrD:
  "PushBackPair t i k v = Inr t' \<Longrightarrow>
   unat i < length (m_aBuckets t) \<and> t' = pair_pushed t (unat i) k v"
  by (auto simp: PushBackPair_def pair_pushed_def split: if_splits)

lemma same_config_pair_pushed: "same_config t (pair_pushed t j k v)"
  by (simp add: same_config_def pair_pushed_def)

lemma same_config_value_updated: "same_config t (value_updated t j it v)"
  by (simp add: same_config_def value_updated_def)

lemma size_pair_pushed: "m_iSize (pair_pushed t j k v) = m_iSize t"
  by (simp add: pair_pushed_def)

lemma size_value_updated: "m_iSize (value_updated t j it v) = m_iSize t"
  by (simp add: value_updated_def)

lemma absent_in_bucket:
  assumes "table_inv pKeyData t" and "m_iSize t \<noteq> 0"
  shows "k \<notin> key ` set (m_aBuckets t ! hashIndex pKeyData t k) \<longleftrightarrow> table_map t k = None"
proof -
  have "hashIndex pKeyData t k < length (m_aBuckets t)"
    using assms by (simp add: table_inv_def hashIndex_less)
  then have "table_map t k = map_of (bucket_alist (m_aBuckets t ! hashIndex pKeyData t k)) k"
    using assms(1) by (simp add: table_inv_def table_map_bucket)
  then show ?thesis
    by (simp add: map_of_eq_None_iff bucket_alist_keys)
qed

text \<open>The elimination rule of a successful \<open>SetKeyValue\<close>: the three ways through it.\<close>

lemma SetKeyValue_InrE:
  assumes "SetKeyValue pKeyData fuel t k v = Inr t'"
  obtains
    (update) "m_iSize t \<noteq> 0" "hashIndex pKeyData t k < length (m_aBuckets t)"
      "FindKeyValuePair_loop k (m_aBuckets t ! hashIndex pKeyData t k)
         \<noteq> length (m_aBuckets t ! hashIndex pKeyData t k)"
      "t' = value_updated t (hashIndex pKeyData t k)
              (FindKeyValuePair_loop k (m_aBuckets t ! hashIndex pKeyData t k)) v"
  | (insert) "m_iSize t \<noteq> 0" "hashIndex pKeyData t k < length (m_aBuckets t)"
      "FindKeyValuePair_loop k (m_aBuckets t ! hashIndex pKeyData t k)
         = length (m_aBuckets t ! hashIndex pKeyData t k)"
      "\<not> LoadExceeded t"
      "t' = pair_pushed t (hashIndex pKeyData t k) k v"
  | (grow) fuel' t1 iBucket it b where "fuel = Suc fuel'"
      "FindBucket pKeyData t k = Inr iBucket" "FindKeyValuePair t (sint iBucket) k = Inr it"
      "Bucket_at t iBucket = Inr b" "\<not> it \<noteq> length b"
      "m_iSize t \<noteq> 0" "hashIndex pKeyData t k < length (m_aBuckets t)"
      "FindKeyValuePair_loop k (m_aBuckets t ! hashIndex pKeyData t k)
         = length (m_aBuckets t ! hashIndex pKeyData t k)"
      "LoadExceeded t"
      "Resize pKeyData fuel' t (m_iSize t * 2) = Inr t1"
      "m_iSize t1 \<noteq> 0" "hashIndex pKeyData t1 k < length (m_aBuckets t1)"
      "t' = pair_pushed t1 (hashIndex pKeyData t1 k) k v"
proof -
  from assms obtain iBucket where fb: "FindBucket pKeyData t k = Inr iBucket"
    by (cases "FindBucket pKeyData t k") (simp_all add: SetKeyValue.simps)
  from assms fb obtain it where fk: "FindKeyValuePair t (sint iBucket) k = Inr it"
    by (cases "FindKeyValuePair t (sint iBucket) k") (simp_all add: SetKeyValue.simps)
  from assms fb fk obtain b where ba: "Bucket_at t iBucket = Inr b"
    by (cases "Bucket_at t iBucket") (simp_all add: SetKeyValue.simps)
  from fb have size: "m_iSize t \<noteq> 0" and j: "unat iBucket = hashIndex pKeyData t k"
    by (simp_all add: FindBucket_InrD)
  from fk j have jlt: "hashIndex pKeyData t k < length (m_aBuckets t)"
    and it: "it = FindKeyValuePair_loop k (m_aBuckets t ! hashIndex pKeyData t k)"
    using FindKeyValuePair_InrD [OF fk] by simp_all
  from ba j have b: "b = m_aBuckets t ! hashIndex pKeyData t k"
    using Bucket_at_InrD [OF ba] by simp
  show thesis
  proof (cases "it \<noteq> length b")
    case True
    with assms fb fk ba have "t' = value_updated t (hashIndex pKeyData t k) it v"
      by (simp add: SetKeyValue.simps value_updated_def j b)
    with True size jlt show ?thesis
      using update by (simp add: it b)
  next
    case notfound: False
    show ?thesis
    proof (cases "LoadExceeded t")
      case False
      with assms fb fk ba notfound have "PushBackPair t iBucket k v = Inr t'"
        by (simp add: SetKeyValue.simps)
      then have "t' = pair_pushed t (hashIndex pKeyData t k) k v"
        using PushBackPair_InrD [of t iBucket k v t'] j by simp
      with False notfound size jlt show ?thesis
        using insert by (simp add: it b)
    next
      case True
      with assms fb fk ba notfound obtain fuel' where fuel: "fuel = Suc fuel'"
        by (cases fuel) (simp_all add: SetKeyValue.simps)
      with assms fb fk ba notfound True obtain t1
        where rs: "Resize pKeyData fuel' t (m_iSize t * 2) = Inr t1"
        by (cases "Resize pKeyData fuel' t (m_iSize t * 2)") (simp_all add: SetKeyValue.simps)
      with assms fb fk ba notfound True fuel obtain i1
        where fb1: "FindBucket pKeyData t1 k = Inr i1"
        by (cases "FindBucket pKeyData t1 k") (simp_all add: SetKeyValue.simps)
      with assms fb fk ba notfound True fuel rs have pb: "PushBackPair t1 i1 k v = Inr t'"
        by (simp add: SetKeyValue.simps)
      from fb1 have size1: "m_iSize t1 \<noteq> 0" and j1: "unat i1 = hashIndex pKeyData t1 k"
        by (simp_all add: FindBucket_InrD)
      from pb j1 have "hashIndex pKeyData t1 k < length (m_aBuckets t1)"
        and "t' = pair_pushed t1 (hashIndex pKeyData t1 k) k v"
        using PushBackPair_InrD [OF pb] by simp_all
      with fuel size jlt notfound True rs size1 fb fk ba show ?thesis
        using grow [of fuel' iBucket it b t1] by (simp add: it b)
    qed
  qed
qed

lemma step_post_trans:
  "step_post pKeyData t t1 \<Longrightarrow> step_post pKeyData t1 t2 \<Longrightarrow> step_post pKeyData t t2"
  unfolding step_post_def
  using same_config_trans grown_from_trans by blast

lemma grown_from_value_updated: "grown_from s (value_updated t j it v) = grown_from s t"
  by (simp add: grown_from_def value_updated_def)

lemma grown_from_pair_pushed: "grown_from s (pair_pushed t j k v) = grown_from s t"
  by (simp add: grown_from_def pair_pushed_def)

lemma fresh_buckets_inv:
  "table_inv pKeyData (t\<lparr> m_iSize := n, m_aBuckets := replicate (unat n) [], m_iNumEntries := c \<rparr>)"
  by (simp add: table_inv_def consistent_def placed_def keys_distinct_def)

lemma fresh_buckets_map:
  "table_map (t\<lparr> m_iSize := n, m_aBuckets := replicate (unat n) [], m_iNumEntries := c \<rparr>) = Map.empty"
  by (simp add: table_map_def entries_def bucket_alist_def)

lemma SetKeyValue_sound:
    "table_inv pKeyData t \<Longrightarrow> SetKeyValue pKeyData fuel t k v = Inr t' \<Longrightarrow>
     step_post pKeyData t t' \<and> table_map t' = (table_map t)(k \<mapsto> v)"
  and Resize_sound:
    "table_inv pKeyData t \<Longrightarrow> Resize pKeyData fuel t iNewSize = Inr t' \<Longrightarrow>
     table_inv pKeyData t' \<and> same_config t t' \<and> grown_from iNewSize t' \<and> table_map t' = table_map t"
  and Resize_for_sound:
    "table_inv pKeyData t \<Longrightarrow> distinct (map key (concat (map ((!) aOldBuckets) idxs))) \<Longrightarrow>
     Resize_for pKeyData fuel t aOldBuckets idxs = Inr t' \<Longrightarrow>
     step_post pKeyData t t' \<and>
     table_map t' = table_map t ++ map_of (bucket_alist (concat (map ((!) aOldBuckets) idxs)))"
  and Resize_while_sound:
    "table_inv pKeyData t \<Longrightarrow> distinct (map key ps) \<Longrightarrow>
     Resize_while pKeyData fuel t ps = Inr t' \<Longrightarrow>
     step_post pKeyData t t' \<and> table_map t' = table_map t ++ map_of (bucket_alist ps)"
proof (induction pKeyData fuel t k v and pKeyData fuel t iNewSize
         and pKeyData fuel t aOldBuckets idxs and pKeyData fuel t ps
       arbitrary: t' and t' and t' and t'
       rule: SetKeyValue_Resize_Resize_for_Resize_while.induct)
  case (1 pKeyData fuel t k v)
  note inv = "1.prems"(1)
  from "1.prems"(2) show ?case
  proof (cases rule: SetKeyValue_InrE)
    case update
    then show ?thesis
      using value_updated_ok [OF inv update(1) refl refl update(3), of v]
      by (simp add: step_post_def same_config_value_updated grown_from_value_updated
            grown_from_refl del: fun_upd_apply)
  next
    case insert
    have "k \<notin> key ` set (m_aBuckets t ! hashIndex pKeyData t k)"
      using insert(3) by (simp add: loop_end_iff)
    then show ?thesis
      using pair_pushed_ok [OF inv insert(1) refl, of k v] insert(5)
      by (simp add: step_post_def same_config_pair_pushed grown_from_pair_pushed
            grown_from_refl del: fun_upd_apply)
  next
    case (grow fuel' t1 iBucket it b)
    have absent: "k \<notin> key ` set (m_aBuckets t ! hashIndex pKeyData t k)"
      using grow(8) by (simp add: loop_end_iff)
    have none: "table_map t k = None"
      using absent absent_in_bucket [OF inv grow(6)] by simp
    have r: "table_inv pKeyData t1 \<and> same_config t t1 \<and> grown_from (m_iSize t * 2) t1
               \<and> table_map t1 = table_map t"
      using "1.IH" [OF grow(2) grow(3) grow(4) grow(5) grow(9) grow(1) inv grow(10)] .
    then have inv1: "table_inv pKeyData t1" by simp
    have "table_map t1 k = None" using r none by simp
    then have absent1: "k \<notin> key ` set (m_aBuckets t1 ! hashIndex pKeyData t1 k)"
      using absent_in_bucket [OF inv1 grow(11)] by simp
    have g: "grown_from (m_iSize t) t1"
      using r by (simp add: grown_from_double)
    show ?thesis
      using pair_pushed_ok [OF inv1 grow(11) refl absent1, of v] grow(13) r g
        same_config_trans [OF _ same_config_pair_pushed [of t1]]
      by (simp add: step_post_def grown_from_pair_pushed del: fun_upd_apply)
  qed
next
  case (2 pKeyData fuel t iNewSize)
  let ?t1 = "t\<lparr> m_iSize := iNewSize, m_aBuckets := replicate (unat iNewSize) [], m_iNumEntries := 0 \<rparr>"
  have "length (m_aBuckets t) = unat (m_iSize t)"
    using "2.prems"(1) by (simp add: table_inv_def consistent_def)
  then have idx: "map ((!) (m_aBuckets t)) [0..<unat (m_iSize t)] = m_aBuckets t"
    using map_nth [of "m_aBuckets t"] by simp
  have d: "distinct (map key (concat (map ((!) (m_aBuckets t)) [0..<unat (m_iSize t)])))"
    using inv_keys_distinct [OF "2.prems"(1)] by (simp add: idx entries_def)
  have run: "Resize_for pKeyData fuel ?t1 (m_aBuckets t) [0..<unat (m_iSize t)] = Inr t'"
    using "2.prems"(2) by (simp add: Resize.simps Let_def)
  have "step_post pKeyData ?t1 t' \<and>
        table_map t' = table_map ?t1 ++ map_of (bucket_alist (concat (map ((!) (m_aBuckets t)) [0..<unat (m_iSize t)])))"
    using "2.IH" [OF refl refl fresh_buckets_inv d run] .
  then have sp: "step_post pKeyData ?t1 t'"
    and m: "table_map t' = table_map ?t1 ++ map_of (bucket_alist (entries t))"
    by (simp_all add: idx entries_def)
  from m have "table_map t' = Map.empty ++ table_map t"
    unfolding fresh_buckets_map by (simp add: table_map_def)
  then have "table_map t' = table_map t"
    by simp
  with sp show ?case
    by (simp add: step_post_def same_config_def)
next
  case (3 pKeyData fuel t aOldBuckets)
  then show ?case
    by (simp add: step_post_def same_config_refl grown_from_refl bucket_alist_def)
next
  case (4 pKeyData fuel t aOldBuckets iBucket rest)
  from "4.prems"(3) have inb: "iBucket < length aOldBuckets"
    by (simp split: if_splits)
  with "4.prems"(3) obtain t2 where
    w: "Resize_while pKeyData fuel t (aOldBuckets ! iBucket) = Inr t2" and
    f: "Resize_for pKeyData fuel t2 aOldBuckets rest = Inr t'"
    by (cases "Resize_while pKeyData fuel t (aOldBuckets ! iBucket)") simp_all
  let ?xs = "aOldBuckets ! iBucket" and ?ys = "concat (map ((!) aOldBuckets) rest)"
  have d1: "distinct (map key ?xs)" and d2: "distinct (map key ?ys)"
    and dis: "key ` set ?xs \<inter> key ` set ?ys = {}"
    using "4.prems"(2) by (simp_all del: set_concat)
  have s1: "step_post pKeyData t t2 \<and> table_map t2 = table_map t ++ map_of (bucket_alist ?xs)"
    using "4.IH"(1) [OF inb "4.prems"(1) d1 w] .
  then have inv2: "table_inv pKeyData t2" by (simp add: step_post_def)
  have s2: "step_post pKeyData t2 t' \<and> table_map t' = table_map t2 ++ map_of (bucket_alist ?ys)"
    using "4.IH"(2) [OF inb w inv2 d2 f] .
  have "dom (map_of (bucket_alist ?xs)) \<inter> dom (map_of (bucket_alist ?ys)) = {}"
    using dis by (simp add: dom_map_of_conv_image_fst bucket_alist_keys del: set_concat)
  then have comm: "map_of (bucket_alist ?xs) ++ map_of (bucket_alist ?ys)
             = map_of (bucket_alist ?ys) ++ map_of (bucket_alist ?xs)"
    by (rule map_add_comm)
  have "table_map t' = (table_map t ++ map_of (bucket_alist ?xs)) ++ map_of (bucket_alist ?ys)"
    using s1 s2 by simp
  also have "\<dots> = table_map t ++ (map_of (bucket_alist ?xs) ++ map_of (bucket_alist ?ys))"
    by (rule map_add_assoc [symmetric])
  also have "\<dots> = table_map t ++ map_of (bucket_alist (?xs @ ?ys))"
    unfolding comm by (simp add: bucket_alist_def)
  finally have "table_map t' = table_map t ++ map_of (bucket_alist (?xs @ ?ys))" .
  then show ?case
    using s1 s2 step_post_trans by auto
next
  case (5 pKeyData fuel t)
  then show ?case
    by (simp add: step_post_def same_config_refl grown_from_refl bucket_alist_def)
next
  case (6 pKeyData fuel t front rest)
  from "6.prems"(3) obtain t2 where
    s: "SetKeyValue pKeyData fuel t (key front) (val front) = Inr t2" and
    w: "Resize_while pKeyData fuel t2 rest = Inr t'"
    by (cases "SetKeyValue pKeyData fuel t (key front) (val front)") simp_all
  have d: "distinct (map key rest)" and nin: "key front \<notin> key ` set rest"
    using "6.prems"(2) by simp_all
  have s1: "step_post pKeyData t t2 \<and> table_map t2 = (table_map t)(key front \<mapsto> val front)"
    using "6.IH"(1) [OF "6.prems"(1) s] .
  then have inv2: "table_inv pKeyData t2" by (simp add: step_post_def)
  have s2: "step_post pKeyData t2 t' \<and> table_map t' = table_map t2 ++ map_of (bucket_alist rest)"
    using "6.IH"(2) [OF s inv2 d w] .
  have "key front \<notin> dom (map_of (bucket_alist rest))"
    using nin by (simp add: dom_map_of_conv_image_fst bucket_alist_keys)
  then have "(table_map t)(key front \<mapsto> val front) ++ map_of (bucket_alist rest)
             = (table_map t ++ map_of (bucket_alist rest))(key front \<mapsto> val front)"
    by (rule map_add_upd_left)
  then have "table_map t' = table_map t ++ map_of (bucket_alist (front # rest))"
    using s1 s2 by (simp add: bucket_alist_def)
  then show ?case
    using s1 s2 step_post_trans by auto
qed

subsection \<open>Forward evaluation of the probe of a bucket\<close>

lemma probe:
  assumes "consistent t" and "m_iSize t \<noteq> 0" and "unat (m_iSize t) \<le> 2 ^ 31"
  obtains i where "FindBucket pKeyData t k = Inr i"
    and "unat i = hashIndex pKeyData t k"
    and "hashIndex pKeyData t k < length (m_aBuckets t)"
    and "FindKeyValuePair t (sint i) k
           = Inr (FindKeyValuePair_loop k (m_aBuckets t ! hashIndex pKeyData t k))"
    and "Bucket_at t i = Inr (m_aBuckets t ! hashIndex pKeyData t k)"
proof -
  let ?i = "m_kpfHashFunction t (pKeyData k) (word_of_nat (length (pKeyData k))) mod m_iSize t"
  have fb: "FindBucket pKeyData t k = Inr ?i"
    using assms(2) by (simp add: FindBucket_def)
  have j: "unat ?i = hashIndex pKeyData t k"
    by (simp add: hashIndex_def)
  have lt: "hashIndex pKeyData t k < length (m_aBuckets t)"
    using assms(1,2) by (rule hashIndex_less)
  then have "unat ?i < unat (m_iSize t)"
    using assms(1) j by (simp add: consistent_def)
  with assms(3) have "unat ?i < 2 ^ 31" by linarith
  then have nn: "0 \<le> sint ?i" by (rule sint_small)
  then have "nat (sint ?i) = unat ?i" by (rule nat_sint_nonneg)
  with nn lt j have fk: "FindKeyValuePair t (sint ?i) k
           = Inr (FindKeyValuePair_loop k (m_aBuckets t ! hashIndex pKeyData t k))"
    by (simp add: FindKeyValuePair_def)
  have ba: "Bucket_at t ?i = Inr (m_aBuckets t ! hashIndex pKeyData t k)"
    using lt j by (simp add: Bucket_at_def)
  from fb j lt fk ba show thesis by (rule that)
qed

lemma LookUpKey_eq:
  assumes "consistent t" and "m_iSize t \<noteq> 0" and "unat (m_iSize t) \<le> 2 ^ 31"
  shows "LookUpKey pKeyData t k pValue =
     Inr (if FindKeyValuePair_loop k (m_aBuckets t ! hashIndex pKeyData t k)
               = length (m_aBuckets t ! hashIndex pKeyData t k)
          then (False, pValue, t)
          else (True, val (m_aBuckets t ! hashIndex pKeyData t k
                             ! FindKeyValuePair_loop k (m_aBuckets t ! hashIndex pKeyData t k)), t))"
proof -
  obtain i where "FindBucket pKeyData t k = Inr i"
    and "FindKeyValuePair t (sint i) k
           = Inr (FindKeyValuePair_loop k (m_aBuckets t ! hashIndex pKeyData t k))"
    and "Bucket_at t i = Inr (m_aBuckets t ! hashIndex pKeyData t k)"
    using assms by (rule probe)
  then show ?thesis by (simp add: LookUpKey_def)
qed



lemma LookUpKey_InrD:
  assumes "LookUpKey pKeyData t k pValue = Inr (found, out, t')"
  shows "t' = t \<and> (\<not> found \<longrightarrow> out = pValue)"
proof -
  from assms obtain i where fb: "FindBucket pKeyData t k = Inr i"
    by (cases "FindBucket pKeyData t k") (simp_all add: LookUpKey_def)
  from assms fb obtain it where fk: "FindKeyValuePair t (sint i) k = Inr it"
    by (cases "FindKeyValuePair t (sint i) k") (simp_all add: LookUpKey_def)
  from assms fb fk obtain b where ba: "Bucket_at t i = Inr b"
    by (cases "Bucket_at t i") (simp_all add: LookUpKey_def)
  from assms fb fk ba show ?thesis
    by (simp add: LookUpKey_def split: if_splits)
qed

text \<open>
  Claim C9. \<open>LookUpKey\<close> leaves the table as it was: whenever it returns, the table after
  the call is the table before it (buckets, size, entry count, hash function, load
  factor), and a result \<open>false\<close> comes with the caller's slot unwritten. On a table whose
  array has \<open>m_iSize\<close> buckets, with \<open>0 < m_iSize \<le> 2^31\<close>, the call does return.
\<close>

theorem LookUpKey_frame:
  "(LookUpKey pKeyData t k pValue = Inr (found, out, t') \<longrightarrow>
      t' = t \<and> (\<not> found \<longrightarrow> out = pValue))
   \<and> (consistent t \<and> m_iSize t \<noteq> 0 \<and> unat (m_iSize t) \<le> 2 ^ 31 \<longrightarrow>
      (\<exists>found out. LookUpKey pKeyData t k pValue = Inr (found, out, t)))"
proof (intro conjI impI)
  assume "LookUpKey pKeyData t k pValue = Inr (found, out, t')"
  then have r: "t' = t \<and> (\<not> found \<longrightarrow> out = pValue)" by (rule LookUpKey_InrD)
  from r show "t' = t" by simp
  from r show "out = pValue" if "\<not> found" using that by simp
next
  assume "consistent t \<and> m_iSize t \<noteq> 0 \<and> unat (m_iSize t) \<le> 2 ^ 31"
  then show "\<exists>found out. LookUpKey pKeyData t k pValue = Inr (found, out, t)"
    using LookUpKey_eq [of t pKeyData k pValue] by auto
qed




subsection \<open>RemoveAllKeys\<close>







lemma cleared_map: "table_map (t\<lparr> m_aBuckets := replicate (unat (m_iSize t)) [] \<rparr>) = Map.empty"
  by (simp add: table_map_def entries_def bucket_alist_def)

lemma new_inv: "table_inv pKeyData (CHashTable_new iInitialSize pfHashFunction fMaxLoadFactor)"
  by (simp add: table_inv_def consistent_def placed_def keys_distinct_def CHashTable_new_def)


lemma RemoveKey_inv:
  assumes "table_inv pKeyData t" and "RemoveKey pKeyData t k = Inr (r, t')"
  shows "table_inv pKeyData t' \<and> m_iSize t' = m_iSize t \<and> same_config t t'
       \<and> table_map t' = (table_map t)(k := None)"
proof -
  from assms(2) obtain i where fb: "FindBucket pKeyData t k = Inr i"
    by (cases "FindBucket pKeyData t k") (simp_all add: RemoveKey_def)
  from assms(2) fb obtain it where fk: "FindKeyValuePair t (sint i) k = Inr it"
    by (cases "FindKeyValuePair t (sint i) k") (simp_all add: RemoveKey_def)
  from assms(2) fb fk obtain b where ba: "Bucket_at t i = Inr b"
    by (cases "Bucket_at t i") (simp_all add: RemoveKey_def)
  from fb have size: "m_iSize t \<noteq> 0" and j: "unat i = hashIndex pKeyData t k"
    by (simp_all add: FindBucket_InrD)
  from j have it: "it = FindKeyValuePair_loop k (m_aBuckets t ! hashIndex pKeyData t k)"
    using FindKeyValuePair_InrD [OF fk] by simp
  from j have b: "b = m_aBuckets t ! hashIndex pKeyData t k"
    using Bucket_at_InrD [OF ba] by simp
  show ?thesis
  proof (cases "it = length b")
    case True
    with assms(2) fb fk ba have "t' = t" by (simp add: RemoveKey_def)
    moreover have "k \<notin> key ` set (m_aBuckets t ! hashIndex pKeyData t k)"
      using True it b by (simp add: loop_end_iff)
    then have "table_map t k = None"
      using absent_in_bucket [OF assms(1) size] by simp
    then have "(table_map t)(k := None) = table_map t" by (rule fun_upd_idem)
    ultimately show ?thesis using assms(1) by (simp add: same_config_refl)
  next
    case False
    with assms(2) fb fk ba have t': "t' = pair_erased t (hashIndex pKeyData t k) it"
      by (simp add: RemoveKey_def pair_erased_def j b)
    have ne: "it \<noteq> length (m_aBuckets t ! hashIndex pKeyData t k)" using False b by simp
    show ?thesis
      using pair_erased_ok [OF assms(1) size refl it ne]
      by (simp add: t' del: fun_upd_apply) (simp add: pair_erased_def same_config_def)
  qed
qed

subsection \<open>Forward evaluation of SetKeyValue\<close>





subsection \<open>The number of stored pairs\<close>




subsection \<open>A resize during which no reinsertion grows the table again\<close>









lemma SetKeyValue_size_nonzero:
  assumes "SetKeyValue pKeyData fuel t k v = Inr t'"
  shows "m_iSize t' \<noteq> 0"
  using assms
  by (cases rule: SetKeyValue_InrE) (simp_all add: value_updated_def pair_pushed_def)






lemma RemoveAllKeys_for_inv:
  "table_inv pKeyData t \<Longrightarrow> RemoveAllKeys_for t idxs = Inr t' \<Longrightarrow> table_inv pKeyData t'"
proof (induction idxs arbitrary: t)
  case Nil
  then show ?case by simp
next
  case (Cons i idxs)
  let ?t1 = "t\<lparr> m_aBuckets := (m_aBuckets t)[i := []] \<rparr>"
  from Cons.prems(2) have ilt: "i < length (m_aBuckets t)"
    and r: "RemoveAllKeys_for ?t1 idxs = Inr t'"
    by (simp_all split: if_splits)
  have "table_inv pKeyData ?t1"
    using Cons.prems(1) ilt by (rule replace_bucket_inv) simp_all
  then show ?case using r by (rule Cons.IH)
qed


text \<open>
  Claim C6. The placement invariant holds for the table the constructor builds, and every
  member function that returns keeps it: in a table that satisfies it, each pair lies in
  the bucket whose index is the hash of the key's bytes modulo the current \<open>m_iSize\<close>.
  \<open>Resize\<close> in particular returns a table that satisfies it for the new size and maps every
  key to the value it had.
\<close>

theorem placement_invariant:
  "table_inv pKeyData (CHashTable_new iInitialSize pfHashFunction fMaxLoadFactor :: ('k, 'v) CHashTable)
   \<and> (table_inv pKeyData (t :: ('k, 'v) CHashTable) \<longrightarrow>
        (\<forall>i < length (m_aBuckets t). \<forall>p \<in> set (m_aBuckets t ! i).
            unat (m_kpfHashFunction t (pKeyData (key p)) (word_of_nat (length (pKeyData (key p))))
                    mod m_iSize t) = i)
      \<and> (\<forall>t'. SetKeyValue pKeyData fuel t k v = Inr t' \<longrightarrow> table_inv pKeyData t')
      \<and> (\<forall>t'. Resize pKeyData fuel t iNewSize = Inr t' \<longrightarrow>
             table_inv pKeyData t' \<and> table_map t' = table_map t)
      \<and> (\<forall>r t'. RemoveKey pKeyData t k = Inr (r, t') \<longrightarrow> table_inv pKeyData t')
      \<and> (\<forall>t'. RemoveAllKeys t = Inr t' \<longrightarrow> table_inv pKeyData t')
      \<and> (\<forall>r out t'. LookUpKey pKeyData t k pValue = Inr (r, out, t') \<longrightarrow> table_inv pKeyData t'))"
proof (intro conjI impI allI)
  show "table_inv pKeyData (CHashTable_new iInitialSize pfHashFunction fMaxLoadFactor :: ('k, 'v) CHashTable)"
    by (rule new_inv)
next
  fix i assume "table_inv pKeyData t" "i < length (m_aBuckets t)"
  then show "\<forall>p \<in> set (m_aBuckets t ! i).
            unat (m_kpfHashFunction t (pKeyData (key p)) (word_of_nat (length (pKeyData (key p))))
                    mod m_iSize t) = i"
    by (simp add: table_inv_def placed_def hashIndex_def)
next
  fix t' assume "table_inv pKeyData t" "SetKeyValue pKeyData fuel t k v = Inr t'"
  then show "table_inv pKeyData t'"
    using SetKeyValue_sound [of pKeyData t fuel k v t'] by (simp add: step_post_def)
next
  fix t' assume a: "table_inv pKeyData t" "Resize pKeyData fuel t iNewSize = Inr t'"
  from a show "table_inv pKeyData t'"
    using Resize_sound [of pKeyData t fuel iNewSize t'] by simp
  from a show "table_map t' = table_map t"
    using Resize_sound [of pKeyData t fuel iNewSize t'] by simp
next
  fix r t' assume "table_inv pKeyData t" "RemoveKey pKeyData t k = Inr (r, t')"
  then show "table_inv pKeyData t'"
    using RemoveKey_inv [of pKeyData t k r t'] by simp
next
  fix t' assume "table_inv pKeyData t" "RemoveAllKeys t = Inr t'"
  then show "table_inv pKeyData t'"
    unfolding RemoveAllKeys_def by (rule RemoveAllKeys_for_inv)
next
  fix r out t' assume "table_inv pKeyData t" "LookUpKey pKeyData t k pValue = Inr (r, out, t')"
  then show "table_inv pKeyData t'"
    using LookUpKey_InrD [of pKeyData t k pValue r out t'] by simp
qed

subsection \<open>Size\<close>














lemma rep2: "replicate 2 x = [x, x]" by (simp add: numeral_eq_Suc)

lemma rep4: "replicate 4 x = [x, x, x, x]" by (simp add: numeral_eq_Suc)

lemma rep8: "replicate 8 x = [x, x, x, x, x, x, x, x]" by (simp add: numeral_eq_Suc)

lemma rep16: "replicate 16 x = [x, x, x, x, x, x, x, x, x, x, x, x, x, x, x, x]"
  by (simp add: numeral_eq_Suc)

lemma upt1: "[0..<1] = [0]" by simp

lemma upt2: "[0..<2] = [0, 1]" by (simp add: upt_rec)

lemma upt4: "[0..<4] = [0, 1, 2, 3]" by (simp add: upt_rec)

lemma upt8: "[0..<8] = [0, 1, 2, 3, 4, 5, 6, 7]" by (simp add: upt_rec)







lemmas table_simps = SetKeyValue.simps FindBucket_def FindKeyValuePair_def Bucket_at_def
  PushBackPair_def LoadExceeded_def CHashTable_new_def UInt32_bytes_def Let_def LookUpKey_def
  RemoveKey_def Resize.simps rep2 rep4 rep8 rep16 upt1 upt2 upt4 upt8





subsection \<open>Sequences of insertions\<close>

lemma SetKeyValues_sound:
  "table_inv pKeyData t \<Longrightarrow> SetKeyValues pKeyData fuel t kvs = Inr t' \<Longrightarrow>
   step_post pKeyData t t'
   \<and> (distinct (map fst kvs) \<longrightarrow> table_map t' = table_map t ++ map_of kvs)
   \<and> (kvs \<noteq> [] \<longrightarrow> m_iSize t' \<noteq> 0)"
proof (induction kvs arbitrary: t)
  case Nil
  then show ?case by (simp add: step_post_def same_config_refl grown_from_refl)
next
  case (Cons kv kvs)
  obtain k v where kv: "kv = (k, v)" by (cases kv)
  from Cons.prems(2) kv obtain t1 where s: "SetKeyValue pKeyData fuel t k v = Inr t1"
    and r: "SetKeyValues pKeyData fuel t1 kvs = Inr t'"
    by (cases "SetKeyValue pKeyData fuel t k v") simp_all
  have p1: "step_post pKeyData t t1" and m1: "table_map t1 = (table_map t)(k \<mapsto> v)"
    using SetKeyValue_sound [OF Cons.prems(1) s] by simp_all
  have nz1: "m_iSize t1 \<noteq> 0" using s by (rule SetKeyValue_size_nonzero)
  have inv1: "table_inv pKeyData t1" using p1 by (simp add: step_post_def)
  note ih = Cons.IH [OF inv1 r]
  have sp: "step_post pKeyData t t'" using p1 ih by (blast intro: step_post_trans)
  have mp: "table_map t' = table_map t ++ map_of (kv # kvs)" if d: "distinct (map fst (kv # kvs))"
  proof -
    from d kv have dk: "distinct (map fst kvs)" and nin: "k \<notin> fst ` set kvs" by simp_all
    have "k \<notin> dom (map_of kvs)" using nin by (simp add: dom_map_of_conv_image_fst)
    then have "(table_map t)(k \<mapsto> v) ++ map_of kvs = (table_map t ++ map_of kvs)(k \<mapsto> v)"
      by (rule map_add_upd_left)
    moreover have "table_map t' = table_map t1 ++ map_of kvs" using ih dk by simp
    ultimately show ?thesis by (simp add: m1 kv)
  qed
  have nz: "m_iSize t' \<noteq> 0"
  proof (cases "kvs = []")
    case True
    with r nz1 show ?thesis by simp
  next
    case False
    with ih show ?thesis by simp
  qed
  from sp mp nz show ?case by blast
qed




lemmas example_simps = example_table_def example_grown_def table_simps AddUpHash_def
  AddUpHash_loop.simps RemoveAllKeys_def

lemma example_built:
  "SetKeyValues UInt32_bytes 0 (CHashTable_new 4 AddUpHash (7 / 10)) [(1, 10), (5, 50), (2, 20)]
     = Inr example_table"
  by (simp add: example_simps)

lemma example_inv: "table_inv UInt32_bytes example_table"
  using SetKeyValues_sound [OF new_inv example_built] by (simp add: step_post_def)

lemma example_grow: "SetKeyValue UInt32_bytes 1 example_table 7 70 = Inr example_grown"
  by (simp add: example_simps)

lemma example_resize: "Resize UInt32_bytes 0 example_table 8
     = Inr (example_grown\<lparr> m_aBuckets := (m_aBuckets example_grown)[7 := []], m_iNumEntries := 3 \<rparr>)"
  by (simp add: example_simps)



lemma example_lookups:
  "LookUpKey UInt32_bytes example_table 5 0 = Inr (True, 50, example_table)"
  "LookUpKey UInt32_bytes example_table 9 0 = Inr (False, 0, example_table)"
  "LookUpKey UInt32_bytes example_grown 7 0 = Inr (True, 70, example_grown)"
  by (simp_all add: example_simps)


lemma example_clear:
  "RemoveAllKeys example_table = Inr (example_table\<lparr> m_aBuckets := [[], [], [], []] \<rparr>)"
  by (simp add: example_simps)

text \<open>
  Claim C2 on the code. After three insertions into a table of four buckets,
  \<open>RemoveAllKeys\<close> empties the buckets and leaves \<open>m_iNumEntries = 3\<close>. The next
  \<open>SetKeyValue\<close> finds \<open>3 > 4 * 0.7\<close> and doubles the empty table to eight buckets, where the
  freshly constructed table keeps its four.
\<close>

theorem RemoveAllKeys_stale_count:
  "RemoveAllKeys example_table
     = Inr \<lparr> m_aBuckets = [[], [], [], []], m_iSize = 4, m_iNumEntries = 3,
             m_kpfHashFunction = AddUpHash, m_kfMaxLoadFactor = 7 / 10 \<rparr>
   \<and> SetKeyValue UInt32_bytes 1
        \<lparr> m_aBuckets = [[], [], [], []], m_iSize = 4, m_iNumEntries = 3,
          m_kpfHashFunction = AddUpHash, m_kfMaxLoadFactor = 7 / 10 \<rparr> (1 :: TUInt32) (10 :: TUInt32)
     = Inr \<lparr> m_aBuckets = [[], [\<lparr> key = 1, val = 10 \<rparr>], [], [], [], [], [], []],
             m_iSize = 8, m_iNumEntries = 1,
             m_kpfHashFunction = AddUpHash, m_kfMaxLoadFactor = 7 / 10 \<rparr>
   \<and> SetKeyValue UInt32_bytes 1 (CHashTable_new 4 AddUpHash (7 / 10)) (1 :: TUInt32) (10 :: TUInt32)
     = Inr \<lparr> m_aBuckets = [[], [\<lparr> key = 1, val = 10 \<rparr>], [], []],
             m_iSize = 4, m_iNumEntries = 1,
             m_kpfHashFunction = AddUpHash, m_kfMaxLoadFactor = 7 / 10 \<rparr>"
  by (simp add: example_simps)

lemma example_sizes:
  "m_iSize example_table \<noteq> 0" "unat (m_iSize example_table) \<le> 2 ^ 31"
  "unat (m_iSize example_table) \<le> 2 ^ 30" "unat (m_iSize example_grown) \<le> 2 ^ 31"
  by (simp_all add: example_table_def example_grown_def)

lemma example_consistent: "consistent example_table"
  using example_inv by (simp add: table_inv_def)


theorem LookUpKey_frame_witness:
  "LookUpKey UInt32_bytes example_table 9 0 = Inr (False, 0, example_table)
   \<and> consistent example_table \<and> m_iSize example_table \<noteq> 0
   \<and> unat (m_iSize example_table) \<le> 2 ^ 31
   \<and> (\<exists>found out. LookUpKey UInt32_bytes example_table 9 0 = Inr (found, out, example_table))"
  using LookUpKey_frame [of UInt32_bytes example_table 9 0 False 0 example_table]
    example_lookups(2) example_consistent example_sizes(1,2)
  by blast


theorem placement_invariant_witness:
  "table_inv UInt32_bytes example_table
   \<and> SetKeyValue UInt32_bytes 1 example_table 7 70 = Inr example_grown
   \<and> table_inv UInt32_bytes example_grown
   \<and> Resize UInt32_bytes 1 example_table 8
        = Inr (example_grown\<lparr> m_aBuckets := (m_aBuckets example_grown)[7 := []], m_iNumEntries := 3 \<rparr>)
   \<and> table_inv UInt32_bytes
        (example_grown\<lparr> m_aBuckets := (m_aBuckets example_grown)[7 := []], m_iNumEntries := 3 \<rparr>)
   \<and> table_map (example_grown\<lparr> m_aBuckets := (m_aBuckets example_grown)[7 := []], m_iNumEntries := 3 \<rparr>)
        = table_map example_table
   \<and> RemoveKey UInt32_bytes example_table 7 = Inr (False, example_table)
   \<and> RemoveAllKeys example_table = Inr (example_table\<lparr> m_aBuckets := [[], [], [], []] \<rparr>)
   \<and> table_inv UInt32_bytes (example_table\<lparr> m_aBuckets := [[], [], [], []] \<rparr>)
   \<and> LookUpKey UInt32_bytes example_table 7 0 = Inr (False, 0, example_table)
   \<and> table_inv UInt32_bytes (CHashTable_new 4 AddUpHash (7 / 10) :: (TUInt32, TUInt32) CHashTable)"
proof -
  have rs: "Resize UInt32_bytes 1 example_table 8
        = Inr (example_grown\<lparr> m_aBuckets := (m_aBuckets example_grown)[7 := []], m_iNumEntries := 3 \<rparr>)"
    by (simp add: example_simps)
  have rk: "RemoveKey UInt32_bytes example_table 7 = Inr (False, example_table)"
    by (simp add: example_simps)
  have lk: "LookUpKey UInt32_bytes example_table 7 0 = Inr (False, 0, example_table)"
    by (simp add: example_simps)
  show ?thesis
    using placement_invariant [where pKeyData = UInt32_bytes and t = example_table and fuel = 1
        and k = 7 and v = 70 and iNewSize = 8 and pValue = 0 and iInitialSize = 4
        and pfHashFunction = AddUpHash and fMaxLoadFactor = "7 / 10"]
      example_inv example_grow rs rk lk example_clear
    by simp
qed




subsection \<open>The recursion budget\<close>













end
